theory Spec2Isabelle
  imports Main "HOL-Library.Word" "HOL-Library.Sublist"
begin

unbundle bit_operations_syntax

section \<open>The chunk splitter of chunk.cpp\<close>

text \<open>
  The model follows \<^verbatim>\<open>src/chunk.cpp\<close>: \<^verbatim>\<open>ChunkBuffer\<close>, \<^verbatim>\<open>BufferPool\<close>,
  \<^verbatim>\<open>Chunker\<close>, \<^verbatim>\<open>compute_sha512\<close>. A byte (\<^verbatim>\<open>char\<close>) is a HOL \<open>char\<close>, a
  \<^verbatim>\<open>size_t\<close> is a \<open>nat\<close> (the one subtraction that could wrap is written out in
  \<open>size_sub\<close>), a \<^verbatim>\<open>std::unique_ptr\<close> that may be null is an \<open>option\<close>, and a thrown
  \<^verbatim>\<open>std::runtime_error\<close> is the \<open>Inl\<close> branch of a sum. The pool is held by
  reference in the C++ \<^verbatim>\<open>Chunker\<close>; here it is passed next to the chunker and
  returned updated, so that several chunkers can draw from one pool.
\<close>

subsection \<open>Constants\<close>

type_synonym size_t = nat
type_synonym bytes = "char list"

definition CHUNK_BASE_SIZE :: size_t where
  "CHUNK_BASE_SIZE = 5 * 1024 * 1024"

definition CHUNK_VARIANCE :: size_t where
  "CHUNK_VARIANCE = 5 * 1024"

definition CHUNK_LIMIT :: size_t where
  "CHUNK_LIMIT = CHUNK_BASE_SIZE + CHUNK_VARIANCE"

definition NUM_BUFFERS :: size_t where
  "NUM_BUFFERS = 100"

text \<open>
  \<^verbatim>\<open>CHUNK_LIMIT\<close> is a file-level constant in the source. The operations below take
  the threshold as their first argument \<open>limit\<close>; the program is the instance
  \<open>limit = CHUNK_LIMIT\<close>, and the small thresholds of the specification's scenarios are
  other instances of the same code.
\<close>

text \<open>Unsigned subtraction on \<^verbatim>\<open>size_t\<close> (64 bits): it wraps when \<open>a < b\<close>.\<close>

definition size_sub :: "size_t \<Rightarrow> size_t \<Rightarrow> size_t" where
  "size_sub a b = (if b \<le> a then a - b else 2 ^ 64 - (b - a))"

subsection \<open>Errors and the outside world\<close>

text \<open>
  \<open>RuntimeError\<close> is \<^verbatim>\<open>std::runtime_error\<close> with its message. The two other
  errors stand for undefined behaviour of the C++ code: dereferencing a null
  \<^verbatim>\<open>currentBuffer_\<close>, and a \<^verbatim>\<open>memcpy\<close> past the end of the buffer's storage.
\<close>

datatype error = RuntimeError string | NullDeref | BufferOverrun

text \<open>
  OpenSSL is not part of the repository. \<open>evp_result\<close> is what the four EVP calls of
  \<^verbatim>\<open>compute_sha512\<close> can do on a given input: fail at one of them, or deliver the
  digest bytes (\<^verbatim>\<open>hash[0..hashLen)\<close>).
\<close>

datatype evp_result = CtxFail | InitFail | UpdateFail | FinalFail | Digest "8 word list"

text \<open>
  What \<^verbatim>\<open>flushCurrentBuffer\<close> does to the outside: \<open>Flushed f bs\<close> says that the
  file \<open>f\<close> was opened and \<open>bs\<close> handed to \<^verbatim>\<open>ofs.write\<close>, with the line
  \<^verbatim>\<open>Flushed chunk\<close> on \<^verbatim>\<open>std::cout\<close> (the code prints it without looking at the
  state of the stream); \<open>WriteError f\<close> is the line on \<^verbatim>\<open>std::cerr\<close> when \<open>f\<close>
  could not be opened.
\<close>

datatype event = Flushed string bytes | WriteError string

text \<open>
  The world: the digest library \<open>evp\<close>, the clock and the success of opening a file
  are oracles, indexed by the number \<open>ticks\<close> of finalisations made so far; \<open>fs\<close> is
  the content of the files, \<open>trace\<close> the events in the order they happened.
  \<open>wrote k f\<close> is the number of bytes that the write of finalisation \<open>k\<close> gets into
  the file \<open>f\<close> once it is open: the write is complete when this is at least the length
  of the chunk, and a disk that fills up gives less (0 leaves the empty file that the
  open made). The code never checks \<^verbatim>\<open>ofs.write\<close> or \<^verbatim>\<open>ofs.close\<close> (lines 185 and
  186), so nothing else depends on it.
\<close>

record World =
  evp :: "bytes \<Rightarrow> evp_result"
  clock :: "nat \<Rightarrow> int"
  opens :: "nat \<Rightarrow> string \<Rightarrow> bool"
  wrote :: "nat \<Rightarrow> string \<Rightarrow> nat"
  ticks :: nat
  fs :: "string \<rightharpoonup> bytes"
  trace :: "event list"

subsection \<open>Printing numbers\<close>

text \<open>
  The digits a \<^verbatim>\<open>std::ostream\<close> prints, in lower case; the first ten are the decimal
  digits.
\<close>

definition hex_digit :: "nat \<Rightarrow> char" where
  "hex_digit d = ''0123456789abcdef'' ! d"

text \<open>\<^verbatim>\<open>oss << std::hex << std::nouppercase << n\<close> for a non-negative \<^verbatim>\<open>int\<close>.\<close>

function show_hex :: "nat \<Rightarrow> string" where
  "show_hex n = (if n < 16 then [hex_digit n] else show_hex (n div 16) @ [hex_digit (n mod 16)])"
  by pat_completeness auto
termination
  by (relation "measure (\<lambda>n. n)") auto

declare show_hex.simps [simp del]

function show_nat :: "nat \<Rightarrow> string" where
  "show_nat n = (if n < 10 then [hex_digit n] else show_nat (n div 10) @ [hex_digit (n mod 10)])"
  by pat_completeness auto
termination
  by (relation "measure (\<lambda>n. n)") auto

declare show_nat.simps [simp del]

text \<open>\<^verbatim>\<open>fname << now\<close> for a \<^verbatim>\<open>std::time_t\<close>: decimal, with a sign when negative.\<close>

definition show_long :: "int \<Rightarrow> string" where
  "show_long i = (if i < 0 then CHR ''-'' # show_nat (nat (- i)) else show_nat (nat i))"

subsection \<open>compute_sha512\<close>

text \<open>
  Lines 68 to 70: a byte of the digest is printed as its high nibble and its low nibble,
  each an \<^verbatim>\<open>int\<close> sent to the stream in hexadecimal.
\<close>

definition hex_byte :: "8 word \<Rightarrow> string" where
  "hex_byte h = show_hex (unat (drop_bit 4 (h AND 0xF0))) @ show_hex (unat (h AND 0x0F))"

definition compute_sha512 :: "(bytes \<Rightarrow> evp_result) \<Rightarrow> bytes \<Rightarrow> error + string" where
  "compute_sha512 lib bs =
     (case lib bs of
        CtxFail \<Rightarrow> Inl (RuntimeError ''Failed to create EVP_MD_CTX'')
      | InitFail \<Rightarrow> Inl (RuntimeError ''Failed to init SHA-512'')
      | UpdateFail \<Rightarrow> Inl (RuntimeError ''Failed to update SHA-512'')
      | FinalFail \<Rightarrow> Inl (RuntimeError ''Failed to finalize SHA-512'')
      | Digest hash \<Rightarrow> Inr (concat (map hex_byte hash)))"

subsection \<open>ChunkBuffer\<close>

record ChunkBuffer =
  data :: bytes
  capacity :: size_t
  used :: size_t

text \<open>
  \<^verbatim>\<open>new char[cap]\<close> leaves the storage uninitialised; the model fills it with zero
  bytes. No theorem below depends on the initial content.
\<close>

definition ChunkBuffer_new :: "size_t \<Rightarrow> ChunkBuffer" where
  "ChunkBuffer_new cap = \<lparr>data = replicate cap (CHR 0x00), capacity = cap, used = 0\<rparr>"

definition clear :: "ChunkBuffer \<Rightarrow> ChunkBuffer" where
  "clear b = b\<lparr>used := 0\<rparr>"

subsection \<open>BufferPool\<close>

record BufferPool =
  bufferSize :: size_t
  freeBuffers :: "ChunkBuffer list"

definition BufferPool_new :: "size_t \<Rightarrow> size_t \<Rightarrow> BufferPool" where
  "BufferPool_new bufferCount bufSize =
     \<lparr>bufferSize = bufSize, freeBuffers = replicate bufferCount (ChunkBuffer_new bufSize)\<rparr>"

definition acquireBuffer :: "BufferPool \<Rightarrow> error + (ChunkBuffer \<times> BufferPool)" where
  "acquireBuffer p =
     (if freeBuffers p = [] then Inl (RuntimeError ''No free chunk buffers available!'')
      else Inr (clear (last (freeBuffers p)), p\<lparr>freeBuffers := butlast (freeBuffers p)\<rparr>))"

definition releaseBuffer :: "BufferPool \<Rightarrow> ChunkBuffer \<Rightarrow> BufferPool" where
  "releaseBuffer p buf = p\<lparr>freeBuffers := freeBuffers p @ [clear buf]\<rparr>"

subsection \<open>Chunker\<close>

record Chunker =
  outputDir :: string
  currentBuffer :: "ChunkBuffer option"

type_synonym state = "Chunker \<times> BufferPool \<times> World"

definition Chunker_new :: "BufferPool \<Rightarrow> string \<Rightarrow> error + (Chunker \<times> BufferPool)" where
  "Chunker_new p dir =
     (case acquireBuffer p of
        Inl e \<Rightarrow> Inl e
      | Inr (buf, p') \<Rightarrow> Inr (\<lparr>outputDir = dir, currentBuffer = Some buf\<rparr>, p'))"

definition chunk_path :: "string \<Rightarrow> string \<Rightarrow> int \<Rightarrow> string" where
  "chunk_path dir hashVal now = dir @ ''/'' @ hashVal @ ''_'' @ show_long now @ ''.txt''"

text \<open>
  Lines 170 to 189 of \<^verbatim>\<open>flushCurrentBuffer\<close>: hash the bytes, read the clock, build
  the file name, open the file (which truncates an existing one) and write; the file
  then holds the bytes the write got into it. The bytes handed over are the first
  \<open>used\<close> bytes of the storage; \<open>used\<close> never exceeds the size of the storage in the
  states the theorems are about.
\<close>

definition writeChunk :: "string \<Rightarrow> bytes \<Rightarrow> World \<Rightarrow> error + World" where
  "writeChunk dir bs w =
     (case compute_sha512 (evp w) bs of
        Inl e \<Rightarrow> Inl e
      | Inr hashVal \<Rightarrow>
          let now = clock w (ticks w);
              fname = chunk_path dir hashVal now
          in if \<not> opens w (ticks w) fname
             then Inr (w\<lparr>trace := trace w @ [WriteError fname], ticks := Suc (ticks w)\<rparr>)
             else Inr (w\<lparr>fs := (fs w)(fname \<mapsto> take (wrote w (ticks w) fname) bs),
                         trace := trace w @ [Flushed fname bs],
                         ticks := Suc (ticks w)\<rparr>))"

definition flushCurrentBuffer :: "state \<Rightarrow> error + state" where
  "flushCurrentBuffer s =
     (case s of (c, p, w) \<Rightarrow>
        (case currentBuffer c of
           None \<Rightarrow> Inr (c, p, w)
         | Some buf \<Rightarrow>
             if used buf = 0 then Inr (c, p, w)
             else (case writeChunk (outputDir c) (take (used buf) (data buf)) w of
                     Inl e \<Rightarrow> Inl e
                   | Inr w' \<Rightarrow> Inr (c\<lparr>currentBuffer := None\<rparr>, releaseBuffer p buf, w'))))"

text \<open>
  The two statements \<^verbatim>\<open>flushCurrentBuffer(); currentBuffer_ = pool_.acquireBuffer();\<close>
  which \<^verbatim>\<open>pushData\<close> has twice. Assigning to the \<^verbatim>\<open>unique_ptr\<close> destroys the buffer
  it still holds, if any.
\<close>

definition refill :: "state \<Rightarrow> error + state" where
  "refill s =
     (case flushCurrentBuffer s of
        Inl e \<Rightarrow> Inl e
      | Inr (c, p, w) \<Rightarrow>
          (case acquireBuffer p of
             Inl e \<Rightarrow> Inl e
           | Inr (buf, p') \<Rightarrow> Inr (c\<lparr>currentBuffer := Some buf\<rparr>, p', w)))"

text \<open>
  One iteration of the \<^verbatim>\<open>while\<close> loop of \<^verbatim>\<open>pushData\<close> (lines 139 to 156); it
  returns the new offset. \<^verbatim>\<open>currentBuffer_->used\<close> on a null pointer and a
  \<^verbatim>\<open>memcpy\<close> that would pass the capacity of the buffer are undefined behaviour in
  C++: the model stops with \<open>NullDeref\<close> and \<open>BufferOverrun\<close>. Neither happens from a
  chunker that its constructor made on a pool of buffers of at least \<open>limit\<close> bytes
  (lemma \<open>pushData_post\<close>).
\<close>

definition pushData_iter :: "size_t \<Rightarrow> bytes \<Rightarrow> size_t \<Rightarrow> state \<Rightarrow> error + (size_t \<times> state)" where
  "pushData_iter limit src offset s =
     (case s of (c, p, w) \<Rightarrow>
        (case currentBuffer c of
           None \<Rightarrow> Inl NullDeref
         | Some buf \<Rightarrow>
             let spaceLeft = size_sub limit (used buf) in
             if spaceLeft = 0 then
               (case refill s of Inl e \<Rightarrow> Inl e | Inr s' \<Rightarrow> Inr (offset, s'))
             else
               let toWrite = min spaceLeft (length src - offset) in
               if capacity buf < used buf + toWrite then Inl BufferOverrun
               else
                 let buf' = buf\<lparr>data := take (used buf) (data buf)
                                          @ take toWrite (drop offset src)
                                          @ drop (used buf + toWrite) (data buf),
                                 used := used buf + toWrite\<rparr>;
                     s1 = (c\<lparr>currentBuffer := Some buf'\<rparr>, p, w);
                     offset' = offset + toWrite
                 in if used buf' \<ge> limit
                    then (case refill s1 of Inl e \<Rightarrow> Inl e | Inr s' \<Rightarrow> Inr (offset', s'))
                    else Inr (offset', s1)))"

text \<open>What decreases in an iteration that leaves the offset where it was.\<close>

definition slack :: "state \<Rightarrow> nat" where
  "slack s =
     (case s of (c, p, w) \<Rightarrow>
        length (freeBuffers p)
        + (case currentBuffer c of None \<Rightarrow> 0 | Some buf \<Rightarrow> if used buf = 0 then 0 else 1))"

lemma refill_slack:
  assumes "refill (c, p, w) = Inr s'" and "currentBuffer c \<noteq> None"
  shows "slack s' < slack (c, p, w)"
  using assms
  by (auto simp: refill_def flushCurrentBuffer_def acquireBuffer_def releaseBuffer_def
      slack_def clear_def split: option.splits sum.splits if_splits prod.splits)

lemma pushData_iter_decreases:
  assumes "pushData_iter limit src offset s = Inr (offset', s')" and "offset < length src"
  shows "length src - offset' < length src - offset \<or> (offset' = offset \<and> slack s' < slack s)"
proof -
  obtain c p w where s: "s = (c, p, w)" by (cases s) auto
  from assms(1) obtain buf where buf: "currentBuffer c = Some buf"
    by (auto simp: pushData_iter_def s split: option.splits)
  show ?thesis
  proof (cases "size_sub limit (used buf) = 0")
    case True
    with assms(1) buf have "refill (c, p, w) = Inr s'" and "offset' = offset"
      by (auto simp: pushData_iter_def s split: sum.splits)
    with buf show ?thesis using refill_slack [of c p w s'] by (simp add: s)
  next
    case False
    with assms buf have "offset' = offset + min (size_sub limit (used buf)) (length src - offset)"
      by (auto simp: pushData_iter_def s Let_def split: sum.splits if_splits)
    with False assms(2) show ?thesis by (auto simp: min_def)
  qed
qed

function pushData_loop :: "size_t \<Rightarrow> bytes \<Rightarrow> size_t \<Rightarrow> state \<Rightarrow> error + state" where
  "pushData_loop limit src offset s =
     (if offset < length src then
        (case pushData_iter limit src offset s of
           Inl e \<Rightarrow> Inl e
         | Inr (offset', s') \<Rightarrow> pushData_loop limit src offset' s')
      else Inr s)"
  by pat_completeness auto
termination
proof (relation "measures [\<lambda>(limit, src, offset, s). length src - offset,
                           \<lambda>(limit, src, offset, s). slack s]")
  show "wf (measures [\<lambda>(limit, src :: bytes, offset, s). length src - offset,
                      \<lambda>(limit :: size_t, src :: bytes, offset :: size_t, s). slack s])"
    by (rule wf_measures)
next
  fix limit :: size_t and src :: bytes and offset :: size_t and s :: state
    and x2 :: "size_t \<times> state" and offset' :: size_t and s' :: state
  assume "offset < length src" and "pushData_iter limit src offset s = Inr x2"
    and "(offset', s') = x2"
  then show "((limit, src, offset', s'), (limit, src, offset, s))
      \<in> measures [\<lambda>(limit, src, offset, s). length src - offset,
                    \<lambda>(limit, src, offset, s). slack s]"
    using pushData_iter_decreases [of limit src offset s offset' s'] by auto
qed

declare pushData_loop.simps [simp del]

definition pushData :: "size_t \<Rightarrow> bytes \<Rightarrow> state \<Rightarrow> error + state" where
  "pushData limit src s = pushData_loop limit src 0 s"

text \<open>
  \<^verbatim>\<open>~Chunker\<close>: flush, then the members are destroyed. A buffer still held by
  \<^verbatim>\<open>currentBuffer_\<close> is deleted with it: it is in neither the pool nor a chunker
  afterwards.
\<close>

definition Chunker_destroy :: "state \<Rightarrow> error + (BufferPool \<times> World)" where
  "Chunker_destroy s =
     (case flushCurrentBuffer s of
        Inl e \<Rightarrow> Inl e
      | Inr (c, p, w) \<Rightarrow> Inr (p, w))"

text \<open>A producer calls \<^verbatim>\<open>pushData\<close> once per block it has read.\<close>

fun pushAll :: "size_t \<Rightarrow> bytes list \<Rightarrow> state \<Rightarrow> error + state" where
  "pushAll limit [] s = Inr s"
| "pushAll limit (blk # blks) s =
     (case pushData limit blk s of
        Inl e \<Rightarrow> Inl e
      | Inr s' \<Rightarrow> pushAll limit blks s')"

text \<open>
  One stream, as the body of the loop of \<^verbatim>\<open>main\<close> runs it: a \<^verbatim>\<open>Chunker\<close> is
  constructed on the pool, the producer pushes its blocks, and the chunker is
  destroyed at the end of the scope.
\<close>

definition process_stream ::
  "size_t \<Rightarrow> string \<Rightarrow> bytes list \<Rightarrow> BufferPool \<times> World \<Rightarrow> error + (BufferPool \<times> World)" where
  "process_stream limit dir blks pw =
     (case pw of (p, w) \<Rightarrow>
        (case Chunker_new p dir of
           Inl e \<Rightarrow> Inl e
         | Inr (c, p') \<Rightarrow>
             (case pushAll limit blks (c, p', w) of
                Inl e \<Rightarrow> Inl e
              | Inr s \<Rightarrow> Chunker_destroy s)))"

section \<open>Reference functions and predicates\<close>

text \<open>
  The functions of this section are not in the source. They say what the statements
  below compare the code with: a byte sequence cut every \<open>limit\<close> bytes, and the
  effect on the world of finalising a list of chunks one after the other.
\<close>

text \<open>
  A sequence cut into pieces of \<open>limit\<close> elements, the last piece holding what is
  left.
\<close>

function chunks_of :: "nat \<Rightarrow> 'a list \<Rightarrow> 'a list list" where
  "chunks_of limit bs =
     (if bs = [] \<or> limit = 0 then [] else take limit bs # chunks_of limit (drop limit bs))"
  by pat_completeness auto
termination
  by (relation "measure (\<lambda>(n, xs). length xs)") auto

declare chunks_of.simps [simp del]

text \<open>
  The pieces of exactly \<open>n\<close> elements, and what is left after them (fewer than \<open>n\<close>
  elements): \<open>chunks_of n xs\<close> is \<open>fulls n xs\<close> followed by \<open>rest n xs\<close> when that is
  not empty (lemma \<open>chunks_of_fulls_rest\<close>).
\<close>

function fulls :: "nat \<Rightarrow> 'a list \<Rightarrow> 'a list list" where
  "fulls n xs = (if n = 0 \<or> length xs < n then [] else take n xs # fulls n (drop n xs))"
  by pat_completeness auto
termination
  by (relation "measure (\<lambda>(n, xs). length xs)") auto

declare fulls.simps [simp del]

function rest :: "nat \<Rightarrow> 'a list \<Rightarrow> 'a list" where
  "rest n xs = (if n = 0 \<or> length xs < n then xs else rest n (drop n xs))"
  by pat_completeness auto
termination
  by (relation "measure (\<lambda>(n, xs). length xs)") auto

declare rest.simps [simp del]

text \<open>
  \<^verbatim>\<open>writeChunk\<close> for each chunk of a list in turn, stopping at the first exception.
\<close>

fun persist_all :: "string \<Rightarrow> bytes list \<Rightarrow> World \<Rightarrow> error + World" where
  "persist_all dir [] w = Inr w"
| "persist_all dir (bs # bss) w =
     (case writeChunk dir bs w of Inl e \<Rightarrow> Inl e | Inr w' \<Rightarrow> persist_all dir bss w')"

text \<open>
  The bytes the chunker holds in its current buffer, and the state of a chunker between
  two iterations of \<^verbatim>\<open>pushData\<close>: a current buffer whose storage has the size the
  struct says, is large enough for a chunk, and is not full.
\<close>

definition pending :: "Chunker \<Rightarrow> bytes" where
  "pending c = (case currentBuffer c of None \<Rightarrow> [] | Some buf \<Rightarrow> take (used buf) (data buf))"

definition chunker_ok :: "size_t \<Rightarrow> Chunker \<Rightarrow> bool" where
  "chunker_ok limit c =
     (case currentBuffer c of
        None \<Rightarrow> False
      | Some buf \<Rightarrow> length (data buf) = capacity buf \<and> limit \<le> capacity buf \<and> used buf < limit)"

text \<open>
  A pool from which a chunker for the threshold \<open>limit\<close> can be constructed.
\<close>

definition pool_ready :: "size_t \<Rightarrow> BufferPool \<Rightarrow> bool" where
  "pool_ready limit p =
     (0 < limit \<and> freeBuffers p \<noteq> []
      \<and> (\<forall>buf \<in> set (freeBuffers p). length (data buf) = capacity buf \<and> limit \<le> capacity buf))"

text \<open>
  Assumptions on the surroundings: the digest library never fails; every file can be
  opened; no file can be opened.
\<close>

definition hash_ok :: "World \<Rightarrow> bool" where
  "hash_ok w = (\<forall>bs. \<exists>d. evp w bs = Digest d)"

definition opens_ok :: "World \<Rightarrow> bool" where
  "opens_ok w = (\<forall>k f. opens w k f)"

definition opens_fail :: "World \<Rightarrow> bool" where
  "opens_fail w = (\<forall>k f. \<not> opens w k f)"

text \<open>
  The contents of the chunks written so far, in the order they were written.
\<close>

definition emitted :: "World \<Rightarrow> bytes list" where
  "emitted w = concat (map (\<lambda>e. case e of Flushed f bs \<Rightarrow> [bs] | WriteError f \<Rightarrow> []) (trace w))"


text \<open>
  What the loop of \<^verbatim>\<open>pushData\<close> does from a given offset: it finalises the full
  pieces of the pending bytes followed by the unread input, and keeps what is left.
\<close>

definition loop_post :: "size_t \<Rightarrow> bytes \<Rightarrow> size_t \<Rightarrow> state \<Rightarrow> bool" where
  "loop_post limit src offset s =
     (case s of (c, p, w) \<Rightarrow>
        (case persist_all (outputDir c) (fulls limit (pending c @ drop offset src)) w of
           Inl e \<Rightarrow> pushData_loop limit src offset s = Inl e
         | Inr w' \<Rightarrow>
             (\<exists>c'. pushData_loop limit src offset s = Inr (c', p, w') \<and> chunker_ok limit c'
                    \<and> outputDir c' = outputDir c
                    \<and> pending c' = rest limit (pending c @ drop offset src))))"

subsection \<open>Concrete worlds and chunkers for the examples\<close>

text \<open>
  In the examples the digest of a byte sequence is the sequence itself (so that equal
  digests mean equal contents), the clock starts at 1700000000 and every write is
  complete.
\<close>

abbreviation test_world :: World where
  "test_world \<equiv> \<lparr>evp = (\<lambda>bs. Digest (map (\<lambda>c. of_nat (of_char c)) bs)),
     clock = (\<lambda>k. 1700000000 + int k), opens = (\<lambda>k f. True),
     wrote = (\<lambda>k f. 5248000), ticks = 0,
     fs = Map.empty, trace = []\<rparr>"

abbreviation readonly_world :: World where
  "readonly_world \<equiv> \<lparr>evp = (\<lambda>bs. Digest (map (\<lambda>c. of_nat (of_char c)) bs)),
     clock = (\<lambda>k. 1700000000 + int k), opens = (\<lambda>k f. False),
     wrote = (\<lambda>k f. 5248000), ticks = 0,
     fs = Map.empty, trace = []\<rparr>"

abbreviation same_second_world :: World where
  "same_second_world \<equiv> \<lparr>evp = (\<lambda>bs. Digest (map (\<lambda>c. of_nat (of_char c)) bs)),
     clock = (\<lambda>k. 1700000000), opens = (\<lambda>k f. True),
     wrote = (\<lambda>k f. 5248000), ticks = 0,
     fs = Map.empty, trace = []\<rparr>"

abbreviation full_disk_world :: World where
  "full_disk_world \<equiv> \<lparr>evp = (\<lambda>bs. Digest (map (\<lambda>c. of_nat (of_char c)) bs)),
     clock = (\<lambda>k. 1700000000 + int k), opens = (\<lambda>k f. True),
     wrote = (\<lambda>k f. 2), ticks = 0, fs = Map.empty, trace = []\<rparr>"

abbreviation hello_chunker :: Chunker where
  "hello_chunker \<equiv> \<lparr>outputDir = ''/tmp/chunked_0'',
     currentBuffer = Some \<lparr>data = ''helloklmno'', capacity = 10, used = 5\<rparr>\<rparr>"

text \<open>The definitions to unfold when a run is evaluated on a concrete input.\<close>

lemmas run_defs = process_stream_def Chunker_new_def acquireBuffer_def BufferPool_new_def
  ChunkBuffer_new_def clear_def pushData_def pushData_loop.simps pushData_iter_def refill_def
  flushCurrentBuffer_def writeChunk_def compute_sha512_def hex_byte_def show_hex.simps
  chunk_path_def show_long_def show_nat.simps hex_digit_def releaseBuffer_def
  Chunker_destroy_def size_sub_def Let_def

section \<open>Lemmas\<close>

subsection \<open>Cutting\<close>

lemma fulls_short: "length xs < n \<Longrightarrow> fulls n xs = []"
  by (simp add: fulls.simps)

lemma rest_short: "length xs < n \<Longrightarrow> rest n xs = xs"
  by (simp add: rest.simps)

lemma fulls_long: "0 < n \<Longrightarrow> n \<le> length xs \<Longrightarrow> fulls n xs = take n xs # fulls n (drop n xs)"
  by (subst fulls.simps) simp

lemma rest_long: "0 < n \<Longrightarrow> n \<le> length xs \<Longrightarrow> rest n xs = rest n (drop n xs)"
  by (subst rest.simps) simp

lemma length_rest: "0 < n \<Longrightarrow> length (rest n xs) < n"
  by (induction n xs rule: rest.induct) (subst rest.simps, auto)

lemma fulls_lengths: "ys \<in> set (fulls n xs) \<Longrightarrow> length ys = n"
  by (induction n xs rule: fulls.induct) (subst (asm) fulls.simps, auto split: if_splits)

lemma fulls_nonempty: "bs \<in> set (fulls n xs) \<Longrightarrow> bs \<noteq> []"
proof (induction n xs rule: fulls.induct)
  case (1 n xs)
  from "1.prems" have n: "\<not> (n = 0 \<or> length xs < n)"
    by (subst (asm) fulls.simps) (auto split: if_splits)
  with "1.prems" have "bs = take n xs \<or> bs \<in> set (fulls n (drop n xs))"
    by (subst (asm) fulls.simps) auto
  with n "1.IH" show ?case by auto
qed

lemma concat_fulls_rest: "concat (fulls n xs) @ rest n xs = xs"
  by (induction n xs rule: fulls.induct) (subst fulls.simps, subst rest.simps, auto)

lemma chunks_of_fulls_rest:
  "0 < n \<Longrightarrow> chunks_of n xs = fulls n xs @ (if rest n xs = [] then [] else [rest n xs])"
proof (induction n xs rule: chunks_of.induct)
  case (1 n xs)
  show ?case
  proof (cases "length xs < n")
    case True
    then show ?thesis using 1(2)
      by (cases "xs = []") (simp_all add: chunks_of.simps [of n xs] chunks_of.simps [of n "[]"] fulls_short rest_short)
  next
    case False
    then have "xs \<noteq> []" using 1(2) by auto
    with 1 False show ?thesis
      by (simp add: chunks_of.simps [of n xs] fulls_long rest_long)
  qed
qed

lemma fulls_append: "0 < n \<Longrightarrow> fulls n (xs @ ys) = fulls n xs @ fulls n (rest n xs @ ys)"
proof (induction n xs rule: fulls.induct)
  case (1 n xs)
  show ?case
  proof (cases "length xs < n")
    case True
    then show ?thesis by (simp add: fulls_short rest_short)
  next
    case False
    with 1 have "fulls n (drop n xs @ ys) = fulls n (drop n xs) @ fulls n (rest n (drop n xs) @ ys)"
      by simp
    moreover have "fulls n (xs @ ys) = take n xs # fulls n (drop n xs @ ys)"
      using False "1.prems" by (subst fulls_long) simp_all
    ultimately show ?thesis using False "1.prems" by (simp add: fulls_long rest_long)
  qed
qed

lemma rest_append: "0 < n \<Longrightarrow> rest n (xs @ ys) = rest n (rest n xs @ ys)"
proof (induction n xs rule: rest.induct)
  case (1 n xs)
  show ?case
  proof (cases "length xs < n")
    case True
    then show ?thesis by (simp add: rest_short)
  next
    case False
    with 1 have "rest n (drop n xs @ ys) = rest n (rest n (drop n xs) @ ys)"
      by simp
    moreover have "rest n (xs @ ys) = rest n (drop n xs @ ys)"
      using False "1.prems" by (subst rest_long) simp_all
    ultimately show ?thesis using False "1.prems" by (simp add: rest_long)
  qed
qed

lemma length_rest_mod: "0 < n \<Longrightarrow> length (rest n xs) = length xs mod n"
proof (induction n xs rule: rest.induct)
  case (1 n xs)
  show ?case
  proof (cases "length xs < n")
    case True
    then show ?thesis by (simp add: rest_short)
  next
    case False
    with 1 show ?thesis by (simp add: rest_long le_mod_geq)
  qed
qed

lemma concat_chunks_of: "0 < n \<Longrightarrow> concat (chunks_of n xs) = xs"
  using concat_fulls_rest [of n xs] by (auto simp: chunks_of_fulls_rest)

lemma chunks_of_lengths: "0 < n \<Longrightarrow> ys \<in> set (chunks_of n xs) \<Longrightarrow> 0 < length ys \<and> length ys \<le> n"
  using length_rest [of n xs] fulls_lengths [of ys n xs]
  by (auto simp: chunks_of_fulls_rest split: if_splits)

lemma butlast_chunks_of_lengths: "0 < n \<Longrightarrow> ys \<in> set (butlast (chunks_of n xs)) \<Longrightarrow> length ys = n"
  by (auto simp: chunks_of_fulls_rest fulls_lengths butlast_append split: if_splits dest: in_set_butlastD)

lemma subseq_butlast: "subseq xs ys \<Longrightarrow> subseq (butlast xs) (butlast ys)"
proof (induction rule: list_emb.induct)
  case (list_emb_Nil ys)
  then show ?case by simp
next
  case (list_emb_Cons xs ys y)
  then show ?case
    by (cases "ys = []") auto
next
  case (list_emb_Cons2 x y xs ys)
  then show ?case
    by (cases "xs = []"; cases "ys = []") auto
qed

subsection \<open>The digest as a hexadecimal string\<close>













subsection \<open>One flush, one iteration\<close>

lemma flush_cases:
  assumes "flushCurrentBuffer (c, p, w) = Inr (c', p', w')"
    and "currentBuffer c = Some buf" and "0 < used buf"
  shows "\<exists>h. compute_sha512 (evp w) (take (used buf) (data buf)) = Inr h
           \<and> c' = c\<lparr>currentBuffer := None\<rparr> \<and> p' = releaseBuffer p buf
           \<and> (if opens w (ticks w) (chunk_path (outputDir c) h (clock w (ticks w)))
               then w' = w\<lparr>fs := (fs w)(chunk_path (outputDir c) h (clock w (ticks w))
                                         \<mapsto> take (wrote w (ticks w)
                                                     (chunk_path (outputDir c) h (clock w (ticks w))))
                                               (take (used buf) (data buf))),
                            trace := trace w @ [Flushed (chunk_path (outputDir c) h (clock w (ticks w)))
                                                   (take (used buf) (data buf))],
                            ticks := Suc (ticks w)\<rparr>
               else w' = w\<lparr>trace := trace w @ [WriteError (chunk_path (outputDir c) h (clock w (ticks w)))],
                            ticks := Suc (ticks w)\<rparr>)"
  using assms
  by (auto simp: flushCurrentBuffer_def writeChunk_def Let_def split: sum.splits if_splits)

text \<open>
  A write that is cut short is not noticed: the flush returns normally with its
  \<open>Flushed\<close> event, and the file holds the bytes that got through.
\<close>

lemma short_write_is_not_noticed:
  "\<exists>c' p' w'. flushCurrentBuffer (hello_chunker, BufferPool_new 0 10, full_disk_world)
                 = Inr (c', p', w')
     \<and> trace w' = [Flushed ''/tmp/chunked_0/68656c6c6f_1700000000.txt'' ''hello'']
     \<and> fs w' ''/tmp/chunked_0/68656c6c6f_1700000000.txt'' = Some ''he''"
  by (simp add: run_defs)

lemma refill_nonempty:
  assumes "currentBuffer c = Some buf" and "0 < used buf"
  shows "refill (c, p, w) =
     (case writeChunk (outputDir c) (take (used buf) (data buf)) w of
        Inl e \<Rightarrow> Inl e
      | Inr w' \<Rightarrow> Inr (c\<lparr>currentBuffer := Some (buf\<lparr>used := 0\<rparr>)\<rparr>, p, w'))"
  using assms
  by (simp add: refill_def flushCurrentBuffer_def acquireBuffer_def releaseBuffer_def clear_def
      split: sum.splits)

lemma length_pending: "chunker_ok limit c \<Longrightarrow> length (pending c) < limit"
  by (auto simp: chunker_ok_def pending_def split: option.splits)

lemma size_sub_le: "b \<le> a \<Longrightarrow> size_sub a b = a - b"
  by (simp add: size_sub_def)

lemma iter_fills:
  assumes ok: "chunker_ok limit c" and more: "offset < length src"
    and fills: "limit - length (pending c) \<le> length src - offset"
  shows "\<exists>c'. chunker_ok limit c' \<and> outputDir c' = outputDir c \<and> pending c' = []
           \<and> pushData_iter limit src offset (c, p, w) =
               (case writeChunk (outputDir c)
                       (pending c @ take (limit - length (pending c)) (drop offset src)) w of
                  Inl e \<Rightarrow> Inl e
                | Inr w' \<Rightarrow> Inr (offset + (limit - length (pending c)), (c', p, w')))"
proof -
  from ok obtain buf where buf: "currentBuffer c = Some buf"
    and len: "length (data buf) = capacity buf" and cap: "limit \<le> capacity buf"
    and u: "used buf < limit"
    by (auto simp: chunker_ok_def split: option.splits)
  have pend: "pending c = take (used buf) (data buf)" and lp: "length (pending c) = used buf"
    using buf len cap u by (simp_all add: pending_def)
  let ?n = "limit - used buf"
  let ?buf' = "buf\<lparr>data := take (used buf) (data buf) @ take ?n (drop offset src)
                           @ drop (used buf + ?n) (data buf),
                    used := used buf + ?n\<rparr>"
  let ?c1 = "c\<lparr>currentBuffer := Some ?buf'\<rparr>"
  let ?c' = "?c1\<lparr>currentBuffer := Some (?buf'\<lparr>used := 0\<rparr>)\<rparr>"
  have n: "min (size_sub limit (used buf)) (length src - offset) = ?n" "size_sub limit (used buf) \<noteq> 0"
    using u fills lp by (simp_all add: size_sub_le)
  have tk: "take (used ?buf') (data ?buf') = take (used buf) (data buf) @ take ?n (drop offset src)"
    using u fills lp len cap by simp
  have r: "refill (?c1, p, w) =
       (case writeChunk (outputDir ?c1) (take (used ?buf') (data ?buf')) w of
          Inl e \<Rightarrow> Inl e
        | Inr w' \<Rightarrow> Inr (?c', p, w'))"
    by (rule refill_nonempty) (use u in simp_all)
  have it: "pushData_iter limit src offset (c, p, w) =
      (case refill (?c1, p, w) of Inl e \<Rightarrow> Inl e | Inr s' \<Rightarrow> Inr (offset + ?n, s'))"
    using buf n u cap by (simp add: pushData_iter_def Let_def split: sum.splits)
  have "chunker_ok limit ?c'" using len cap u fills lp by (simp add: chunker_ok_def)
  moreover have "outputDir ?c' = outputDir c" by simp
  moreover have "pending ?c' = []" by (simp add: pending_def)
  moreover have "pushData_iter limit src offset (c, p, w) =
               (case writeChunk (outputDir c)
                       (pending c @ take (limit - length (pending c)) (drop offset src)) w of
                  Inl e \<Rightarrow> Inl e
                | Inr w' \<Rightarrow> Inr (offset + (limit - length (pending c)), (?c', p, w')))"
    using len cap u unfolding it r tk pend by (simp add: min_absorb2 split: sum.splits)
  ultimately show ?thesis by blast
qed

lemma iter_partial:
  assumes ok: "chunker_ok limit c" and more: "offset < length src"
    and part: "length src - offset < limit - length (pending c)"
  shows "\<exists>c'. chunker_ok limit c' \<and> outputDir c' = outputDir c
           \<and> pending c' = pending c @ drop offset src
           \<and> pushData_iter limit src offset (c, p, w) = Inr (length src, (c', p, w))"
proof -
  from ok obtain buf where buf: "currentBuffer c = Some buf"
    and len: "length (data buf) = capacity buf" and cap: "limit \<le> capacity buf"
    and u: "used buf < limit"
    by (auto simp: chunker_ok_def split: option.splits)
  have pend: "pending c = take (used buf) (data buf)" and lp: "length (pending c) = used buf"
    using buf len cap u by (simp_all add: pending_def)
  define n where "n = length src - offset"
  define buf' where "buf' = buf\<lparr>data := take (used buf) (data buf) @ take n (drop offset src)
                           @ drop (used buf + n) (data buf),
                    used := used buf + n\<rparr>"
  define c' where "c' = c\<lparr>currentBuffer := Some buf'\<rparr>"
  have n: "min (size_sub limit (used buf)) (length src - offset) = n"
    and nz: "size_sub limit (used buf) \<noteq> 0"
    and small: "\<not> limit \<le> used buf + n" and fits: "\<not> capacity buf < used buf + n"
    and off: "offset + n = length src"
    using u part lp more cap by (simp_all add: size_sub_le n_def)
  have ub: "used buf' = used buf + n" by (simp add: buf'_def)
  have it: "pushData_iter limit src offset (c, p, w) = Inr (length src, (c', p, w))"
    unfolding pushData_iter_def
    by (simp add: buf Let_def n nz fits off flip: buf'_def c'_def) (simp add: ub small)
  have "chunker_ok limit c'" using len cap u small fits
    by (auto simp: chunker_ok_def c'_def buf'_def n_def)
  moreover have "outputDir c' = outputDir c" by (simp add: c'_def)
  moreover have "pending c' = pending c @ drop offset src"
    using u len cap fits by (simp add: pending_def buf c'_def buf'_def n_def)
  ultimately show ?thesis using it by blast
qed

subsection \<open>The loop of pushData\<close>

lemma pushData_loop_done:
  "\<not> offset < length src \<Longrightarrow> pushData_loop limit src offset s = Inr s"
  by (simp add: pushData_loop.simps)

lemma pushData_loop_step:
  "offset < length src \<Longrightarrow> pushData_loop limit src offset s =
     (case pushData_iter limit src offset s of
        Inl e \<Rightarrow> Inl e
      | Inr (offset', s') \<Rightarrow> pushData_loop limit src offset' s')"
  by (subst pushData_loop.simps) simp

lemma pushData_loop_post:
  "chunker_ok limit (fst s) \<Longrightarrow> loop_post limit src offset s"
proof (induction limit src offset s rule: pushData_loop.induct)
  case (1 limit src offset s)
  obtain c p w where s: "s = (c, p, w)" by (cases s) auto
  from "1.prems" have ok: "chunker_ok limit c" by (simp add: s)
  then have lp: "length (pending c) < limit" by (rule length_pending)
  then have pos: "0 < limit" by simp
  show ?case
  proof (cases "offset < length src")
    case False
    then show ?thesis using ok lp
      by (simp add: loop_post_def s pushData_loop_done fulls_short rest_short)
  next
    case more: True
    show ?thesis
    proof (cases "limit - length (pending c) \<le> length src - offset")
      case fills: True
      define k where "k = limit - length (pending c)"
      define chunk where "chunk = pending c @ take k (drop offset src)"
      from iter_fills [OF ok more fills, of p w] obtain c'
        where c': "chunker_ok limit c'" "outputDir c' = outputDir c" "pending c' = []"
          and it: "pushData_iter limit src offset (c, p, w) =
               (case writeChunk (outputDir c) chunk w of
                  Inl e \<Rightarrow> Inl e
                | Inr w' \<Rightarrow> Inr (offset + k, (c', p, w')))"
        unfolding k_def chunk_def by blast
      have long: "limit \<le> length (pending c @ drop offset src)"
        using fills lp by simp
      have tk: "take limit (pending c @ drop offset src) = chunk"
        using lp by (simp add: chunk_def k_def)
      have dr: "drop limit (pending c @ drop offset src) = drop (offset + k) src"
        using lp by (simp add: k_def add.commute)
      have fl: "fulls limit (pending c @ drop offset src) = chunk # fulls limit (drop (offset + k) src)"
        by (subst fulls_long [OF pos long]) (simp only: tk dr)
      have rs: "rest limit (pending c @ drop offset src) = rest limit (drop (offset + k) src)"
        by (subst rest_long [OF pos long]) (simp only: dr)
      show ?thesis
      proof (cases "writeChunk (outputDir c) chunk w")
        case (Inl e)
        then show ?thesis
          by (simp add: loop_post_def s fl pushData_loop_step [OF more] it)
      next
        case (Inr w1)
        then have it': "pushData_iter limit src offset s = Inr (offset + k, (c', p, w1))"
          by (simp add: it s)
        have "loop_post limit src (offset + k) (c', p, w1)"
          by (rule "1.IH" [OF more it' refl]) (simp add: c')
        then show ?thesis
          by (simp add: loop_post_def s fl rs Inr pushData_loop_step [OF more] it c'
              split: sum.splits)
      qed
    next
      case False
      then have part: "length src - offset < limit - length (pending c)" by simp
      from iter_partial [OF ok more part, of p w] obtain c'
        where c': "chunker_ok limit c'" "outputDir c' = outputDir c"
          "pending c' = pending c @ drop offset src"
          and it: "pushData_iter limit src offset s = Inr (length src, (c', p, w))"
        unfolding s by blast
      have "loop_post limit src (length src) (c', p, w)"
        by (rule "1.IH" [OF more it refl]) (simp add: c')
      then show ?thesis
        by (simp add: loop_post_def s pushData_loop_step [OF more] it [unfolded s] c'
            split: sum.splits)
    qed
  qed
qed

lemma persist_all_append:
  "persist_all dir (as @ bs) w =
     (case persist_all dir as w of Inl e \<Rightarrow> Inl e | Inr w' \<Rightarrow> persist_all dir bs w')"
  by (induction as arbitrary: w) (auto split: sum.splits)

lemma pushData_post:
  assumes "chunker_ok limit c"
  shows "case persist_all (outputDir c) (fulls limit (pending c @ src)) w of
           Inl e \<Rightarrow> pushData limit src (c, p, w) = Inl e
         | Inr w' \<Rightarrow>
             (\<exists>c'. pushData limit src (c, p, w) = Inr (c', p, w') \<and> chunker_ok limit c'
                    \<and> outputDir c' = outputDir c
                    \<and> pending c' = rest limit (pending c @ src))"
  using pushData_loop_post [of limit "(c, p, w)" src 0] assms
  by (auto simp: loop_post_def pushData_def split: sum.splits)

lemma pushAll_post:
  assumes "chunker_ok limit c"
  shows "case persist_all (outputDir c) (fulls limit (pending c @ concat blks)) w of
           Inl e \<Rightarrow> pushAll limit blks (c, p, w) = Inl e
         | Inr w' \<Rightarrow>
             (\<exists>c'. pushAll limit blks (c, p, w) = Inr (c', p, w') \<and> chunker_ok limit c'
                    \<and> outputDir c' = outputDir c
                    \<and> pending c' = rest limit (pending c @ concat blks))"
  using assms
proof (induction blks arbitrary: c w)
  case Nil
  then show ?case using length_pending [OF Nil]
    by (simp add: fulls_short rest_short)
next
  case (Cons blk blks)
  from Cons.prems have pos: "0 < limit" using length_pending by fastforce
  have fl: "fulls limit (pending c @ blk @ concat blks) =
      fulls limit (pending c @ blk) @ fulls limit (rest limit (pending c @ blk) @ concat blks)"
    using fulls_append [OF pos, of "pending c @ blk" "concat blks"] by simp
  have rs: "rest limit (pending c @ blk @ concat blks) =
      rest limit (rest limit (pending c @ blk) @ concat blks)"
    using rest_append [OF pos, of "pending c @ blk" "concat blks"] by simp
  show ?case
  proof (cases "persist_all (outputDir c) (fulls limit (pending c @ blk)) w")
    case (Inl e)
    with pushData_post [OF Cons.prems, where src = blk and w = w and p = p] show ?thesis
      by (simp add: fl persist_all_append)
  next
    case (Inr w1)
    with pushData_post [OF Cons.prems, where src = blk and w = w and p = p] obtain c1
      where c1: "pushData limit blk (c, p, w) = Inr (c1, p, w1)" "chunker_ok limit c1"
        "outputDir c1 = outputDir c" "pending c1 = rest limit (pending c @ blk)"
      by auto
    from Cons.IH [OF c1(2), where w = w1] show ?thesis
      by (simp add: fl rs persist_all_append Inr c1 split: sum.splits)
  qed
qed

subsection \<open>A whole stream\<close>

lemma Chunker_new_ready:
  assumes "pool_ready limit p"
  shows "\<exists>c. Chunker_new p dir = Inr (c, p\<lparr>freeBuffers := butlast (freeBuffers p)\<rparr>)
           \<and> chunker_ok limit c \<and> outputDir c = dir \<and> pending c = []"
  using assms
  by (simp add: pool_ready_def Chunker_new_def acquireBuffer_def chunker_ok_def pending_def
      clear_def)

lemma Chunker_destroy_empty:
  assumes "chunker_ok limit c" and "pending c = []"
  shows "Chunker_destroy (c, p, w) = Inr (p, w)"
  using assms
  by (auto simp: Chunker_destroy_def flushCurrentBuffer_def chunker_ok_def pending_def
      split: option.splits)

lemma Chunker_destroy_nonempty:
  assumes "chunker_ok limit c" and "pending c \<noteq> []"
  shows "\<exists>buf. length (data buf) = capacity buf \<and> limit \<le> capacity buf
           \<and> Chunker_destroy (c, p, w) =
               (case writeChunk (outputDir c) (pending c) w of
                  Inl e \<Rightarrow> Inl e
                | Inr w' \<Rightarrow> Inr (releaseBuffer p buf, w'))"
  using assms
  by (auto simp: Chunker_destroy_def flushCurrentBuffer_def chunker_ok_def pending_def
      split: option.splits sum.splits)

lemma process_stream_post:
  assumes ready: "pool_ready limit p"
  shows "case persist_all dir (chunks_of limit (concat blks)) w of
           Inl e \<Rightarrow> process_stream limit dir blks (p, w) = Inl e
         | Inr w' \<Rightarrow>
             (\<exists>p'. process_stream limit dir blks (p, w) = Inr (p', w')
                \<and> bufferSize p' = bufferSize p
                \<and> (if rest limit (concat blks) = []
                    then freeBuffers p' = butlast (freeBuffers p)
                    else (\<exists>buf. freeBuffers p' = butlast (freeBuffers p) @ [buf]
                            \<and> length (data buf) = capacity buf \<and> limit \<le> capacity buf
                            \<and> used buf = 0)))"
proof -
  from ready have pos: "0 < limit" by (simp add: pool_ready_def)
  define p0 where "p0 = p\<lparr>freeBuffers := butlast (freeBuffers p)\<rparr>"
  from Chunker_new_ready [OF ready, of dir] obtain c
    where c: "Chunker_new p dir = Inr (c, p0)" "chunker_ok limit c" "outputDir c = dir"
      "pending c = []"
    unfolding p0_def by blast
  let ?S = "concat blks"
  have ps: "process_stream limit dir blks (p, w) =
      (case pushAll limit blks (c, p0, w) of Inl e \<Rightarrow> Inl e | Inr s \<Rightarrow> Chunker_destroy s)"
    by (simp add: process_stream_def c)
  have ch: "chunks_of limit ?S = fulls limit ?S @ (if rest limit ?S = [] then [] else [rest limit ?S])"
    by (rule chunks_of_fulls_rest [OF pos])
  note pa = pushAll_post [OF c(2), where blks = blks and w = w and p = p0, unfolded c(3,4), simplified]
  show ?thesis
  proof (cases "persist_all dir (fulls limit ?S) w")
    case (Inl e)
    with pa show ?thesis by (simp add: ch persist_all_append ps)
  next
    case (Inr w1)
    with pa obtain c1 where c1: "pushAll limit blks (c, p0, w) = Inr (c1, p0, w1)"
      "chunker_ok limit c1" "outputDir c1 = dir" "pending c1 = rest limit ?S"
      by auto
    have ps1: "process_stream limit dir blks (p, w) = Chunker_destroy (c1, p0, w1)"
      by (simp add: ps c1)
    have p0: "bufferSize p0 = bufferSize p" "freeBuffers p0 = butlast (freeBuffers p)"
      by (simp_all add: p0_def)
    show ?thesis
    proof (cases "rest limit ?S = []")
      case True
      with c1 have "Chunker_destroy (c1, p0, w1) = Inr (p0, w1)"
        using Chunker_destroy_empty by simp
      with True show ?thesis
        by (simp add: ch persist_all_append Inr ps1 p0)
    next
      case False
      with c1 Chunker_destroy_nonempty [of limit c1 p0 w1] obtain buf
        where buf: "length (data buf) = capacity buf" "limit \<le> capacity buf"
          and d: "Chunker_destroy (c1, p0, w1) =
               (case writeChunk dir (rest limit ?S) w1 of
                  Inl e \<Rightarrow> Inl e
                | Inr w' \<Rightarrow> Inr (releaseBuffer p0 buf, w'))"
        by auto
      show ?thesis
        using False buf
        by (auto simp: ch persist_all_append Inr ps1 d p0 releaseBuffer_def clear_def
            split: sum.splits)
    qed
  qed
qed

text \<open>
  The pool and the threshold of \<^verbatim>\<open>main\<close> satisfy the hypothesis of the theorems on
  streams.
\<close>

lemma main_pool_ready: "pool_ready CHUNK_LIMIT (BufferPool_new NUM_BUFFERS CHUNK_LIMIT)"
  by (simp add: pool_ready_def BufferPool_new_def ChunkBuffer_new_def CHUNK_LIMIT_def
      CHUNK_BASE_SIZE_def CHUNK_VARIANCE_def NUM_BUFFERS_def)

subsection \<open>The world after a list of chunks\<close>

lemma emitted_append: "emitted (w\<lparr>trace := trace w @ es\<rparr>) = emitted w @ emitted (w\<lparr>trace := es\<rparr>)"
  by (simp add: emitted_def)

lemma writeChunk_ok:
  assumes "hash_ok w"
  shows "\<exists>w'. writeChunk dir bs w = Inr w' \<and> hash_ok w' \<and> (opens_ok w \<longrightarrow> opens_ok w')
           \<and> (emitted w' = emitted w @ [bs] \<or> emitted w' = emitted w)
           \<and> (opens_ok w \<longrightarrow> emitted w' = emitted w @ [bs])"
proof -
  from assms obtain d where d: "evp w bs = Digest d" by (auto simp: hash_ok_def)
  show ?thesis
    using assms
    by (auto simp: writeChunk_def compute_sha512_def d Let_def hash_ok_def opens_ok_def emitted_def)
qed

lemma persist_all_ok:
  assumes "hash_ok w"
  shows "\<exists>w' new. persist_all dir cs w = Inr w' \<and> hash_ok w' \<and> (opens_ok w \<longrightarrow> opens_ok w')
           \<and> emitted w' = emitted w @ new \<and> subseq new cs \<and> (opens_ok w \<longrightarrow> new = cs)"
  using assms
proof (induction cs arbitrary: w)
  case Nil
  then show ?case by simp
next
  case (Cons bs cs)
  from writeChunk_ok [OF Cons.prems, of dir bs] obtain w1
    where w1: "writeChunk dir bs w = Inr w1" "hash_ok w1" "opens_ok w \<longrightarrow> opens_ok w1"
      "emitted w1 = emitted w @ [bs] \<or> emitted w1 = emitted w"
      "opens_ok w \<longrightarrow> emitted w1 = emitted w @ [bs]"
    by blast
  from Cons.IH [OF w1(2)] obtain w' new
    where w': "persist_all dir cs w1 = Inr w'" "hash_ok w'" "opens_ok w1 \<longrightarrow> opens_ok w'"
      "emitted w' = emitted w1 @ new" "subseq new cs" "opens_ok w1 \<longrightarrow> new = cs"
    by blast
  from w1(4) show ?case
  proof
    assume e: "emitted w1 = emitted w @ [bs]"
    have "persist_all dir (bs # cs) w = Inr w' \<and> hash_ok w' \<and> (opens_ok w \<longrightarrow> opens_ok w')
           \<and> emitted w' = emitted w @ (bs # new) \<and> subseq (bs # new) (bs # cs)
           \<and> (opens_ok w \<longrightarrow> bs # new = bs # cs)"
      using w1 w' e by simp
    then show ?thesis by blast
  next
    assume e: "emitted w1 = emitted w"
    have "persist_all dir (bs # cs) w = Inr w' \<and> hash_ok w' \<and> (opens_ok w \<longrightarrow> opens_ok w')
           \<and> emitted w' = emitted w @ new \<and> subseq new (bs # cs)
           \<and> (opens_ok w \<longrightarrow> new = bs # cs)"
      using w1 w' e by auto
    then show ?thesis by blast
  qed
qed

lemma writeChunk_fail:
  assumes "hash_ok w" and "opens_fail w"
  shows "\<exists>w'. writeChunk dir bs w = Inr w' \<and> hash_ok w' \<and> opens_fail w'
           \<and> fs w' = fs w \<and> emitted w' = emitted w \<and> length (trace w') = Suc (length (trace w))"
proof -
  from assms obtain d where d: "evp w bs = Digest d" by (auto simp: hash_ok_def)
  show ?thesis
    using assms
    by (auto simp: writeChunk_def compute_sha512_def d Let_def hash_ok_def opens_fail_def emitted_def)
qed

lemma persist_all_fail:
  assumes "hash_ok w" and "opens_fail w"
  shows "\<exists>w'. persist_all dir cs w = Inr w' \<and> hash_ok w' \<and> opens_fail w'
           \<and> fs w' = fs w \<and> emitted w' = emitted w
           \<and> length (trace w') = length (trace w) + length cs"
  using assms
proof (induction cs arbitrary: w)
  case Nil
  then show ?case by simp
next
  case (Cons bs cs)
  from writeChunk_fail [OF Cons.prems, of dir bs] obtain w1
    where w1: "writeChunk dir bs w = Inr w1" "hash_ok w1" "opens_fail w1"
      "fs w1 = fs w" "emitted w1 = emitted w" "length (trace w1) = Suc (length (trace w))"
    by blast
  from Cons.IH [OF w1(2,3)] obtain w'
    where "persist_all dir cs w1 = Inr w'" "hash_ok w'" "opens_fail w'"
      "fs w' = fs w1" "emitted w' = emitted w1" "length (trace w') = length (trace w1) + length cs"
    by blast
  with w1 show ?case by simp
qed

section \<open>The claims\<close>

text \<open>
  C1: for every byte sequence and every way of cutting it into \<^verbatim>\<open>pushData\<close> calls, the
  stream (construct the chunker, push the blocks, destroy the chunker) returns, and the
  chunks it writes, in the order of the flushes, concatenate to the bytes pushed. The
  chunks are \<open>chunks_of limit\<close> of the concatenation of the blocks: where the cuts fall
  depends on the bytes pushed so far only, not on the blocks. The hypotheses are about the
  surroundings: the pool has a free buffer of the right size, hashing and opening files
  do not fail.
\<close>

theorem push_partition_reassembles:
  assumes "pool_ready limit p" and "hash_ok w" and "opens_ok w"
  shows "\<exists>p' w' new. process_stream limit dir blks (p, w) = Inr (p', w')
           \<and> emitted w' = emitted w @ new
           \<and> concat new = concat blks
           \<and> new = chunks_of limit (concat blks)"
proof -
  from assms(1) have pos: "0 < limit" by (simp add: pool_ready_def)
  from persist_all_ok [OF assms(2), of dir "chunks_of limit (concat blks)"] assms(3)
  obtain w' where w': "persist_all dir (chunks_of limit (concat blks)) w = Inr w'"
    "emitted w' = emitted w @ chunks_of limit (concat blks)"
    by auto
  with process_stream_post [OF assms(1), of dir blks w]
  obtain p' where "process_stream limit dir blks (p, w) = Inr (p', w')"
    by auto
  with w'(2) concat_chunks_of [OF pos, of "concat blks"] show ?thesis
    by blast
qed

theorem push_partition_reassembles_witness:
  "pool_ready 10 (BufferPool_new 1 10) \<and> hash_ok test_world \<and> opens_ok test_world
   \<and> (\<exists>p' w'. process_stream 10 ''/tmp/chunked_0'' [''abc'', ''defghijklmno'']
                   (BufferPool_new 1 10, test_world) = Inr (p', w')
              \<and> emitted w' = [''abcdefghij'', ''klmno''])"
proof -
  have h1: "pool_ready 10 (BufferPool_new 1 10)"
    by (simp add: pool_ready_def BufferPool_new_def ChunkBuffer_new_def)
  have h2: "hash_ok test_world" by (simp add: hash_ok_def)
  have h3: "opens_ok test_world" by (simp add: opens_ok_def)
  have c: "chunks_of 10 ''abcdefghijklmno'' = [''abcdefghij'', ''klmno'']"
    by (simp add: chunks_of.simps)
  have e: "emitted test_world = []" by (simp add: emitted_def)
  from push_partition_reassembles [OF h1 h2 h3, of "''/tmp/chunked_0''" "[''abc'', ''defghijklmno'']"]
  show ?thesis using h1 h2 h3 by (auto simp: c e)
qed

text \<open>
  C2: every chunk a stream writes except the last one has exactly \<open>limit\<close> bytes, no
  chunk has more, and the last chunk written has between 1 and \<open>limit\<close> bytes. This
  holds whether or not every file could be opened.
\<close>

theorem chunk_lengths:
  assumes "pool_ready limit p" and "hash_ok w"
  shows "\<exists>p' w' new. process_stream limit dir blks (p, w) = Inr (p', w')
           \<and> emitted w' = emitted w @ new
           \<and> (\<forall>c \<in> set (butlast new). length c = limit)
           \<and> (\<forall>c \<in> set new. length c \<le> limit)
           \<and> (new \<noteq> [] \<longrightarrow> 0 < length (last new) \<and> length (last new) \<le> limit)"
proof -
  from assms(1) have pos: "0 < limit" by (simp add: pool_ready_def)
  let ?cs = "chunks_of limit (concat blks)"
  from persist_all_ok [OF assms(2), of dir ?cs]
  obtain w' new where w': "persist_all dir ?cs w = Inr w'"
    "emitted w' = emitted w @ new" "subseq new ?cs"
    by auto
  with process_stream_post [OF assms(1), of dir blks w]
  obtain p' where p': "process_stream limit dir blks (p, w) = Inr (p', w')"
    by auto
  have all: "0 < length c \<and> length c \<le> limit" if "c \<in> set new" for c
    using list_emb_set [OF w'(3) that] chunks_of_lengths [OF pos, of c "concat blks"]
    by auto
  have front: "length c = limit" if "c \<in> set (butlast new)" for c
    using list_emb_set [OF subseq_butlast [OF w'(3)] that]
      butlast_chunks_of_lengths [OF pos, of c "concat blks"]
    by auto
  have "new \<noteq> [] \<longrightarrow> 0 < length (last new) \<and> length (last new) \<le> limit"
    using all [of "last new"] by simp
  with p' w'(2) all front show ?thesis by blast
qed

theorem chunk_lengths_witness:
  "pool_ready 10 (BufferPool_new 1 10) \<and> hash_ok test_world
   \<and> (\<exists>p' w'. process_stream 10 ''/tmp/chunked_0'' [''abc'', ''defghijklmno'', ''pqrstuvwxyz'']
                   (BufferPool_new 1 10, test_world) = Inr (p', w')
              \<and> map length (emitted w') = [10, 10, 6])"
proof -
  have h1: "pool_ready 10 (BufferPool_new 1 10)"
    by (simp add: pool_ready_def BufferPool_new_def ChunkBuffer_new_def)
  have h2: "hash_ok test_world" by (simp add: hash_ok_def)
  from chunk_lengths [OF h1 h2, of "''/tmp/chunked_0''" "[''abc'', ''defghijklmno'', ''pqrstuvwxyz'']"]
  obtain p' w' where r: "process_stream 10 ''/tmp/chunked_0'' [''abc'', ''defghijklmno'', ''pqrstuvwxyz'']
                   (BufferPool_new 1 10, test_world) = Inr (p', w')"
    by blast
  then have m: "map length (emitted w') = [10, 10, 6]"
    by (auto simp: run_defs emitted_def)
  show ?thesis
    by (intro conjI exI [of _ p'] exI [of _ w']) (rule h1 h2 r m)+
qed

text \<open>
  C3: the number of buffers, free or held by a live chunker, is not constant. A pool of
  one buffer and a threshold of 10: a stream of exactly 10 bytes writes its chunk, and
  once its chunker is destroyed the pool has no free buffer and no chunker holds one.
\<close>

theorem pool_loses_a_buffer:
  "length (freeBuffers (BufferPool_new 1 10)) = 1
   \<and> (\<exists>p' w'. process_stream 10 ''/tmp/chunked_0'' [''abcdefghij''] (BufferPool_new 1 10, test_world)
                  = Inr (p', w')
         \<and> emitted w' = [''abcdefghij''] \<and> freeBuffers p' = [])"
  by (simp add: run_defs emitted_def)

text \<open>
  C4: pool of one buffer, threshold 10, two streams of 10 bytes one after the other. The
  first one completes and writes its chunk; constructing the chunker of the second one
  throws, since the first chunker took the buffer again after its flush and never gave
  it back.
\<close>

theorem second_stream_finds_pool_empty:
  "\<exists>p' w'. process_stream 10 ''/tmp/chunked_0'' [''abcdefghij''] (BufferPool_new 1 10, test_world)
              = Inr (p', w')
     \<and> emitted w' = [''abcdefghij'']
     \<and> process_stream 10 ''/tmp/chunked_0'' [''klmnopqrst''] (p', w')
         = Inl (RuntimeError ''No free chunk buffers available!'')"
  by (simp add: run_defs emitted_def)

text \<open>
  C5: \<^verbatim>\<open>acquireBuffer\<close> on a pool with no free buffer fails at once with the
  runtime error (it returns the error and nothing else: no buffer, no new pool); on a
  pool with a free buffer it takes the last one out of the free list, clears it and
  returns it. The function is a single case distinction, so it never waits.
\<close>

theorem acquireBuffer_spec:
  "(freeBuffers p = [] \<longrightarrow>
      acquireBuffer p = Inl (RuntimeError ''No free chunk buffers available!''))
   \<and> (freeBuffers p \<noteq> [] \<longrightarrow>
      (\<exists>buf p' b0. acquireBuffer p = Inr (buf, p')
         \<and> freeBuffers p = freeBuffers p' @ [b0] \<and> bufferSize p' = bufferSize p
         \<and> buf = clear b0 \<and> used buf = 0
         \<and> data buf = data b0 \<and> capacity buf = capacity b0))"
  by (auto simp: acquireBuffer_def clear_def intro!: exI [of _ "last (freeBuffers p)"])

theorem acquireBuffer_spec_witness:
  "acquireBuffer (BufferPool_new 0 10) = Inl (RuntimeError ''No free chunk buffers available!'')
   \<and> (\<exists>buf p'. acquireBuffer (BufferPool_new 2 10) = Inr (buf, p')
         \<and> used buf = 0 \<and> length (freeBuffers p') = 1)"
proof -
  from acquireBuffer_spec [of "BufferPool_new 0 10"]
  have e: "acquireBuffer (BufferPool_new 0 10) = Inl (RuntimeError ''No free chunk buffers available!'')"
    by (simp add: BufferPool_new_def)
  from acquireBuffer_spec [of "BufferPool_new 2 10"] obtain buf p' b0
    where a: "acquireBuffer (BufferPool_new 2 10) = Inr (buf, p')" "used buf = 0"
      and f: "freeBuffers (BufferPool_new 2 10) = freeBuffers p' @ [b0]"
    by (auto simp: BufferPool_new_def)
  from f have "length (freeBuffers (BufferPool_new 2 10)) = length (freeBuffers p' @ [b0])"
    by simp
  then have "length (freeBuffers p') = 1" by (simp add: BufferPool_new_def)
  with e a show ?thesis by blast
qed

text \<open>
  C6: when the file of a chunk cannot be opened, \<^verbatim>\<open>flushCurrentBuffer\<close> still returns
  normally: it reports the failure (one \<open>WriteError\<close> event), writes nothing (the
  files are as before: the bytes of the chunk are lost), releases the buffer and
  leaves the chunker and the pool exactly as a successful flush does. The next
  \<^verbatim>\<open>acquireBuffer\<close> of \<^verbatim>\<open>pushData\<close> succeeds, and a whole stream in a world where
  no file can be opened still runs to its end, with one report for each chunk.
\<close>

theorem persist_failure_is_local:
  assumes cur: "currentBuffer c = Some buf" and ne: "0 < used buf"
    and hash: "compute_sha512 (evp w) (take (used buf) (data buf)) = Inr h"
    and fail: "\<not> opens w (ticks w) (chunk_path (outputDir c) h (clock w (ticks w)))"
  shows "\<exists>w'. flushCurrentBuffer (c, p, w)
                 = Inr (c\<lparr>currentBuffer := None\<rparr>, releaseBuffer p buf, w')
           \<and> trace w' = trace w @ [WriteError (chunk_path (outputDir c) h (clock w (ticks w)))]
           \<and> fs w' = fs w \<and> emitted w' = emitted w
           \<and> (\<exists>w''. flushCurrentBuffer (c, p, w\<lparr>opens := \<lambda>k f. True\<rparr>)
                        = Inr (c\<lparr>currentBuffer := None\<rparr>, releaseBuffer p buf, w''))
           \<and> refill (c, p, w) = Inr (c\<lparr>currentBuffer := Some (clear buf)\<rparr>, p, w')
           \<and> (pool_ready limit p0 \<and> hash_ok w0 \<and> opens_fail w0 \<longrightarrow>
                (\<exists>p1 w1. process_stream limit dir blks (p0, w0) = Inr (p1, w1)
                   \<and> fs w1 = fs w0 \<and> emitted w1 = emitted w0
                   \<and> length (trace w1)
                       = length (trace w0) + length (chunks_of limit (concat blks))))"
proof -
  let ?f = "chunk_path (outputDir c) h (clock w (ticks w))"
  let ?w' = "w\<lparr>trace := trace w @ [WriteError ?f], ticks := Suc (ticks w)\<rparr>"
  have wc: "writeChunk (outputDir c) (take (used buf) (data buf)) w = Inr ?w'"
    using hash fail by (simp add: writeChunk_def Let_def)
  have 1: "flushCurrentBuffer (c, p, w) = Inr (c\<lparr>currentBuffer := None\<rparr>, releaseBuffer p buf, ?w')"
    using cur ne wc by (simp add: flushCurrentBuffer_def)
  have 2: "\<exists>w''. flushCurrentBuffer (c, p, w\<lparr>opens := \<lambda>k f. True\<rparr>)
                        = Inr (c\<lparr>currentBuffer := None\<rparr>, releaseBuffer p buf, w'')"
    using cur ne hash by (simp add: flushCurrentBuffer_def writeChunk_def Let_def)
  have 3: "refill (c, p, w) = Inr (c\<lparr>currentBuffer := Some (clear buf)\<rparr>, p, ?w')"
    using refill_nonempty [OF cur ne, of p w] wc by (simp add: clear_def)
  have 4: "\<exists>p1 w1. process_stream limit dir blks (p0, w0) = Inr (p1, w1)
                   \<and> fs w1 = fs w0 \<and> emitted w1 = emitted w0
                   \<and> length (trace w1)
                       = length (trace w0) + length (chunks_of limit (concat blks))"
    if a: "pool_ready limit p0 \<and> hash_ok w0 \<and> opens_fail w0"
  proof -
    from a persist_all_fail [of w0 dir "chunks_of limit (concat blks)"] obtain w1
      where w1: "persist_all dir (chunks_of limit (concat blks)) w0 = Inr w1"
        "fs w1 = fs w0" "emitted w1 = emitted w0"
        "length (trace w1) = length (trace w0) + length (chunks_of limit (concat blks))"
      by blast
    with a process_stream_post [of limit p0 dir blks w0]
    obtain p1 where "process_stream limit dir blks (p0, w0) = Inr (p1, w1)" by auto
    with w1 show ?thesis by blast
  qed
  have 5: "trace ?w' = trace w @ [WriteError ?f]" "fs ?w' = fs w" "emitted ?w' = emitted w"
    by (simp_all add: emitted_def)
  from 1 2 3 4 5 show ?thesis by blast
qed

theorem persist_failure_is_local_witness:
  "\<exists>w'. flushCurrentBuffer (hello_chunker, BufferPool_new 0 10, readonly_world)
           = Inr (hello_chunker\<lparr>currentBuffer := None\<rparr>,
                  \<lparr>bufferSize = 10, freeBuffers = [\<lparr>data = ''helloklmno'', capacity = 10, used = 0\<rparr>]\<rparr>, w')
      \<and> trace w' = [WriteError ''/tmp/chunked_0/68656c6c6f_1700000000.txt'']
      \<and> fs w' = Map.empty
      \<and> (\<exists>p1 w1. process_stream 10 ''/tmp/chunked_0'' [''abc'', ''defghijklmno'']
                     (BufferPool_new 1 10, readonly_world) = Inr (p1, w1)
            \<and> fs w1 = Map.empty \<and> length (trace w1) = 2)"
proof -
  have h: "compute_sha512 (evp readonly_world) (take 5 ''helloklmno'') = Inr ''68656c6c6f''"
    by (simp add: run_defs)
  have f: "\<not> opens readonly_world (ticks readonly_world)
      (chunk_path (outputDir hello_chunker) ''68656c6c6f'' (clock readonly_world (ticks readonly_world)))"
    by simp
  have h1: "pool_ready 10 (BufferPool_new 1 10)"
    by (simp add: pool_ready_def BufferPool_new_def ChunkBuffer_new_def)
  have h2: "hash_ok readonly_world" by (simp add: hash_ok_def)
  have h3: "opens_fail readonly_world" by (simp add: opens_fail_def)
  have c: "chunks_of 10 ''abcdefghijklmno'' = [''abcdefghij'', ''klmno'']"
    by (simp add: chunks_of.simps)
  have cur: "currentBuffer hello_chunker = Some \<lparr>data = ''helloklmno'', capacity = 10, used = 5\<rparr>"
    and ne: "0 < used \<lparr>data = ''helloklmno'', capacity = 10, used = 5\<rparr>"
    and h': "compute_sha512 (evp readonly_world)
               (take (used \<lparr>data = ''helloklmno'', capacity = 10, used = 5\<rparr>)
                  (data \<lparr>data = ''helloklmno'', capacity = 10, used = 5\<rparr>)) = Inr ''68656c6c6f''"
    using h by simp_all
  from persist_failure_is_local [OF cur ne h' f, where p = "BufferPool_new 0 10" and limit = 10
      and ?p0.0 = "BufferPool_new 1 10" and ?w0.0 = readonly_world and dir = "''/tmp/chunked_0''"
      and blks = "[''abc'', ''defghijklmno'']"] h1 h2 h3
  obtain w' p1 w1
    where a: "flushCurrentBuffer (hello_chunker, BufferPool_new 0 10, readonly_world)
                 = Inr (hello_chunker\<lparr>currentBuffer := None\<rparr>,
                        releaseBuffer (BufferPool_new 0 10) \<lparr>data = ''helloklmno'', capacity = 10, used = 5\<rparr>, w')"
      "trace w' = trace readonly_world @ [WriteError (chunk_path (outputDir hello_chunker)
           ''68656c6c6f'' (clock readonly_world (ticks readonly_world)))]"
      "fs w' = fs readonly_world"
      and b: "process_stream 10 ''/tmp/chunked_0'' [''abc'', ''defghijklmno'']
                     (BufferPool_new 1 10, readonly_world) = Inr (p1, w1)"
        "fs w1 = fs readonly_world"
        "length (trace w1) = length (trace readonly_world)
           + length (chunks_of 10 (concat [''abc'', ''defghijklmno'']))"
    by blast
  have "flushCurrentBuffer (hello_chunker, BufferPool_new 0 10, readonly_world)
           = Inr (hello_chunker\<lparr>currentBuffer := None\<rparr>,
                  \<lparr>bufferSize = 10, freeBuffers = [\<lparr>data = ''helloklmno'', capacity = 10, used = 0\<rparr>]\<rparr>, w')"
    using a(1) by (simp add: BufferPool_new_def releaseBuffer_def clear_def)
  moreover have "trace w' = [WriteError ''/tmp/chunked_0/68656c6c6f_1700000000.txt'']"
    using a(2) by (simp add: chunk_path_def show_long_def show_nat.simps hex_digit_def)
  moreover have "fs w' = Map.empty" using a(3) by simp
  moreover have "fs w1 = Map.empty" using b(2) by simp
  moreover have "length (trace w1) = 2" using b(3) by (simp add: c)
  ultimately show ?thesis using b(1) by blast
qed



text \<open>
  C8: when the chunker is destroyed with bytes in its current buffer, the buffer is
  finalised: one more event, the chunk written being the first \<open>used\<close> bytes when the
  file opens, and the buffer released. When the current buffer is empty, the destructor
  changes nothing in the world: no chunk. No chunk written during a \<^verbatim>\<open>pushData\<close>
  or during a whole stream is empty.
\<close>

theorem no_empty_chunk:
  "(currentBuffer c = Some buf \<and> 0 < used buf \<and> hash_ok w \<longrightarrow>
      (\<exists>w'. Chunker_destroy (c, p, w) = Inr (releaseBuffer p buf, w')
         \<and> length (trace w') = Suc (length (trace w))
         \<and> (opens_ok w \<longrightarrow> emitted w' = emitted w @ [take (used buf) (data buf)])))
   \<and> (currentBuffer c = Some buf \<and> used buf = 0 \<longrightarrow> Chunker_destroy (c, p, w) = Inr (p, w))
   \<and> (chunker_ok limit c \<and> hash_ok w \<longrightarrow>
      (\<exists>c' w' new. pushData limit src (c, p, w) = Inr (c', p, w')
         \<and> emitted w' = emitted w @ new \<and> [] \<notin> set new))
   \<and> (pool_ready limit p0 \<and> hash_ok w \<longrightarrow>
      (\<exists>p' w' new. process_stream limit dir blks (p0, w) = Inr (p', w')
         \<and> emitted w' = emitted w @ new \<and> [] \<notin> set new))"
proof (intro conjI impI)
  assume a: "currentBuffer c = Some buf \<and> 0 < used buf \<and> hash_ok w"
  then obtain d where d: "evp w (take (used buf) (data buf)) = Digest d"
    by (auto simp: hash_ok_def)
  with a show "\<exists>w'. Chunker_destroy (c, p, w) = Inr (releaseBuffer p buf, w')
         \<and> length (trace w') = Suc (length (trace w))
         \<and> (opens_ok w \<longrightarrow> emitted w' = emitted w @ [take (used buf) (data buf)])"
    by (auto simp: Chunker_destroy_def flushCurrentBuffer_def writeChunk_def compute_sha512_def
        Let_def opens_ok_def emitted_def)
next
  assume "currentBuffer c = Some buf \<and> used buf = 0"
  then show "Chunker_destroy (c, p, w) = Inr (p, w)"
    by (simp add: Chunker_destroy_def flushCurrentBuffer_def)
next
  assume a: "chunker_ok limit c \<and> hash_ok w"
  from a persist_all_ok [of w "outputDir c" "fulls limit (pending c @ src)"]
  obtain w' new where w': "persist_all (outputDir c) (fulls limit (pending c @ src)) w = Inr w'"
    "emitted w' = emitted w @ new" "subseq new (fulls limit (pending c @ src))"
    by blast
  with a pushData_post [where limit = limit and c = c and src = src and w = w and p = p]
  obtain c' where "pushData limit src (c, p, w) = Inr (c', p, w')" by auto
  moreover have "[] \<notin> set new"
    using list_emb_set [OF w'(3)] fulls_nonempty by metis
  ultimately show "\<exists>c' w' new. pushData limit src (c, p, w) = Inr (c', p, w')
         \<and> emitted w' = emitted w @ new \<and> [] \<notin> set new"
    using w'(2) by blast
next
  assume a: "pool_ready limit p0 \<and> hash_ok w"
  then have pos: "0 < limit" by (simp add: pool_ready_def)
  from a persist_all_ok [of w dir "chunks_of limit (concat blks)"]
  obtain w' new where w': "persist_all dir (chunks_of limit (concat blks)) w = Inr w'"
    "emitted w' = emitted w @ new" "subseq new (chunks_of limit (concat blks))"
    by blast
  with a process_stream_post [where limit = limit and p = p0 and dir = dir and blks = blks and w = w]
  obtain p' where "process_stream limit dir blks (p0, w) = Inr (p', w')" by auto
  moreover have "[] \<notin> set new"
    using list_emb_set [OF w'(3)] chunks_of_lengths [OF pos] by (metis less_irrefl list.size(3))
  ultimately show "\<exists>p' w' new. process_stream limit dir blks (p0, w) = Inr (p', w')
         \<and> emitted w' = emitted w @ new \<and> [] \<notin> set new"
    using w'(2) by blast
qed

theorem no_empty_chunk_witness:
  "(\<exists>w'. Chunker_destroy (hello_chunker, BufferPool_new 0 10, test_world)
            = Inr (BufferPool_new 1 10\<lparr>freeBuffers := [\<lparr>data = ''helloklmno'', capacity = 10, used = 0\<rparr>]\<rparr>, w')
      \<and> emitted w' = [''hello''])
   \<and> Chunker_destroy (\<lparr>outputDir = ''/tmp/chunked_0'', currentBuffer = Some (ChunkBuffer_new 10)\<rparr>,
          BufferPool_new 0 10, test_world)
       = Inr (BufferPool_new 0 10, test_world)
   \<and> (\<exists>p' w'. process_stream 10 ''/tmp/chunked_0'' [''abcdefghij'', '''', ''klmnopqrst'']
                  (BufferPool_new 1 10, test_world) = Inr (p', w')
         \<and> emitted w' = [''abcdefghij'', ''klmnopqrst''])"
proof -
  have h1: "pool_ready 10 (BufferPool_new 1 10)"
    by (simp add: pool_ready_def BufferPool_new_def ChunkBuffer_new_def)
  have h2: "hash_ok test_world" by (simp add: hash_ok_def)
  have h3: "opens_ok test_world" by (simp add: opens_ok_def)
  have e: "emitted test_world = []" by (simp add: emitted_def)
  note t = no_empty_chunk [where c = hello_chunker
      and buf = "\<lparr>data = ''helloklmno'', capacity = 10, used = 5\<rparr>"
      and p = "BufferPool_new 0 10" and w = test_world and limit = 10
      and ?p0.0 = "BufferPool_new 1 10" and dir = "''/tmp/chunked_0''"
      and blks = "[''abcdefghij'', '''', ''klmnopqrst'']"]
  from t h2 h3 obtain w' where a: "Chunker_destroy (hello_chunker, BufferPool_new 0 10, test_world)
       = Inr (releaseBuffer (BufferPool_new 0 10) \<lparr>data = ''helloklmno'', capacity = 10, used = 5\<rparr>, w')"
    "emitted w' = emitted test_world @ [take (used \<lparr>data = ''helloklmno'', capacity = 10, used = 5\<rparr>)
        (data \<lparr>data = ''helloklmno'', capacity = 10, used = 5\<rparr>)]"
    by auto
  from t h1 h2 obtain p1 w1 new where b: "process_stream 10 ''/tmp/chunked_0'' [''abcdefghij'', '''', ''klmnopqrst'']
                  (BufferPool_new 1 10, test_world) = Inr (p1, w1)"
    "emitted w1 = emitted test_world @ new" "[] \<notin> set new"
    by blast
  have "Chunker_destroy (hello_chunker, BufferPool_new 0 10, test_world)
            = Inr (BufferPool_new 1 10\<lparr>freeBuffers := [\<lparr>data = ''helloklmno'', capacity = 10, used = 0\<rparr>]\<rparr>, w')"
    using a(1) by (simp add: releaseBuffer_def BufferPool_new_def clear_def)
  moreover have "emitted w' = [''hello'']" using a(2) by (simp add: e)
  moreover have "Chunker_destroy (\<lparr>outputDir = ''/tmp/chunked_0'', currentBuffer = Some (ChunkBuffer_new 10)\<rparr>,
          BufferPool_new 0 10, test_world)
       = Inr (BufferPool_new 0 10, test_world)"
    using no_empty_chunk [where c = "\<lparr>outputDir = ''/tmp/chunked_0'', currentBuffer = Some (ChunkBuffer_new 10)\<rparr>"
      and buf = "ChunkBuffer_new 10" and p = "BufferPool_new 0 10" and w = test_world]
    by (simp add: ChunkBuffer_new_def)
  moreover have "emitted w1 = [''abcdefghij'', ''klmnopqrst'']"
    using b(1) by (auto simp: run_defs emitted_def)
  ultimately show ?thesis using b(1) by blast
qed

text \<open>
  C9 does not hold as stated. Twenty equal bytes with a threshold of 10, both chunks
  finalised within the same second: the two chunks have the same digest and the same
  timestamp, hence the same file name, and the second write replaces the file of the
  first. Two chunks were finalised and one file exists.
\<close>

theorem later_write_replaces_file:
  "\<exists>p' w'. process_stream 10 ''/tmp/chunked_0'' [''aaaaaaaaaaaaaaaaaaaa'']
              (BufferPool_new 1 10, same_second_world) = Inr (p', w')
     \<and> trace w' = [Flushed ''/tmp/chunked_0/61616161616161616161_1700000000.txt'' ''aaaaaaaaaa'',
                    Flushed ''/tmp/chunked_0/61616161616161616161_1700000000.txt'' ''aaaaaaaaaa'']
     \<and> fs w' = [''/tmp/chunked_0/61616161616161616161_1700000000.txt'' \<mapsto> ''aaaaaaaaaa'']"
  by (simp add: run_defs)

text \<open>
  C9, amended: a flush of a non-empty buffer makes exactly one attempt to persist the
  chunk, under the name \<^verbatim>\<open><outputDir>/<hex>_<now>.txt\<close> made of the output directory,
  the digest of the content and the clock (the chunker knows no input file name). It
  leaves every file with another name as it was; when the file with that name could be
  opened, it holds afterwards what the write got into it (the chunk, when the write was
  complete), whatever it held before.
\<close>

theorem flush_persists_once:
  assumes "flushCurrentBuffer (c, p, w) = Inr (c', p', w')"
    and "currentBuffer c = Some buf" and "0 < used buf"
  shows "\<exists>h f. compute_sha512 (evp w) (take (used buf) (data buf)) = Inr h
           \<and> f = outputDir c @ ''/'' @ h @ ''_'' @ show_long (clock w (ticks w)) @ ''.txt''
           \<and> (\<forall>g. g \<noteq> f \<longrightarrow> fs w' g = fs w g)
           \<and> (trace w' = trace w @ [Flushed f (take (used buf) (data buf))]
                \<and> fs w' f = Some (take (wrote w (ticks w) f) (take (used buf) (data buf)))
                \<and> (used buf \<le> wrote w (ticks w) f \<longrightarrow>
                     fs w' f = Some (take (used buf) (data buf)))
              \<or> trace w' = trace w @ [WriteError f] \<and> fs w' = fs w)"
  using flush_cases [OF assms]
  by (auto simp: chunk_path_def min_absorb2 split: if_splits)

theorem flush_persists_once_witness:
  "\<exists>c' p' w'. flushCurrentBuffer (hello_chunker, BufferPool_new 0 10,
                   test_world\<lparr>fs := [''/tmp/chunked_0/00_1600000000.txt'' \<mapsto> ''earlier'']\<rparr>)
                 = Inr (c', p', w')
     \<and> fs w' ''/tmp/chunked_0/00_1600000000.txt'' = Some ''earlier''
     \<and> fs w' ''/tmp/chunked_0/68656c6c6f_1700000000.txt'' = Some ''hello''"
proof -
  let ?w = "test_world\<lparr>fs := [''/tmp/chunked_0/00_1600000000.txt'' \<mapsto> ''earlier'']\<rparr>"
  obtain c' p' w' where r: "flushCurrentBuffer (hello_chunker, BufferPool_new 0 10, ?w) = Inr (c', p', w')"
    and t: "trace w' = [Flushed ''/tmp/chunked_0/68656c6c6f_1700000000.txt'' ''hello'']"
    by (simp add: run_defs)
  have cur: "currentBuffer hello_chunker = Some \<lparr>data = ''helloklmno'', capacity = 10, used = 5\<rparr>"
    and ne: "0 < used \<lparr>data = ''helloklmno'', capacity = 10, used = 5\<rparr>"
    by simp_all
  from flush_persists_once [OF r cur ne] obtain h f
    where h: "compute_sha512 (evp ?w) ''hello'' = Inr h"
      and f: "f = ''/tmp/chunked_0'' @ ''/'' @ h @ ''_'' @ show_long (clock ?w (ticks ?w)) @ ''.txt''"
      and o: "\<forall>g. g \<noteq> f \<longrightarrow> fs w' g = fs ?w g"
      and d: "trace w' = trace ?w @ [Flushed f ''hello'']
                \<and> ((5::nat) \<le> wrote ?w (ticks ?w) f \<longrightarrow> fs w' f = Some ''hello'')
              \<or> trace w' = trace ?w @ [WriteError f] \<and> fs w' = fs ?w"
    by auto
  from h have h': "h = ''68656c6c6f''" by (simp add: run_defs)
  from f have f': "f = ''/tmp/chunked_0/68656c6c6f_1700000000.txt''"
    by (simp add: h' show_long_def show_nat.simps hex_digit_def)
  from o have "fs w' ''/tmp/chunked_0/00_1600000000.txt'' = Some ''earlier''"
    by (simp add: f')
  moreover from d t have "fs w' ''/tmp/chunked_0/68656c6c6f_1700000000.txt'' = Some ''hello''"
    by (auto simp: f')
  ultimately show ?thesis using r by blast
qed

text \<open>
  C10: when the current buffer is empty, \<^verbatim>\<open>flushCurrentBuffer\<close> returns without
  releasing it, and the destructor leaves the pool as it was: the buffer the chunker held
  is not in the free list afterwards. So a stream whose length is a multiple of the
  threshold (an empty stream too) leaves the pool with one free buffer fewer.
\<close>

theorem empty_buffer_is_dropped:
  "(currentBuffer c = Some buf \<and> used buf = 0 \<longrightarrow>
      flushCurrentBuffer (c, p, w) = Inr (c, p, w) \<and> Chunker_destroy (c, p, w) = Inr (p, w))
   \<and> (pool_ready limit p0 \<and> hash_ok w \<and> limit dvd length (concat blks) \<longrightarrow>
      (\<exists>p' w'. process_stream limit dir blks (p0, w) = Inr (p', w')
         \<and> bufferSize p' = bufferSize p0
         \<and> freeBuffers p' = butlast (freeBuffers p0)
         \<and> Suc (length (freeBuffers p')) = length (freeBuffers p0)))"
proof (intro conjI impI)
  assume "currentBuffer c = Some buf \<and> used buf = 0"
  then show "flushCurrentBuffer (c, p, w) = Inr (c, p, w)"
    and "Chunker_destroy (c, p, w) = Inr (p, w)"
    by (simp_all add: Chunker_destroy_def flushCurrentBuffer_def)
next
  assume a: "pool_ready limit p0 \<and> hash_ok w \<and> limit dvd length (concat blks)"
  then have pos: "0 < limit" and ne: "freeBuffers p0 \<noteq> []" by (simp_all add: pool_ready_def)
  from a have "length (rest limit (concat blks)) = 0"
    using length_rest_mod [OF pos, of "concat blks"] by simp
  then have r: "rest limit (concat blks) = []" by simp
  from a persist_all_ok [of w dir "chunks_of limit (concat blks)"]
  obtain w' where "persist_all dir (chunks_of limit (concat blks)) w = Inr w'" by blast
  with a process_stream_post [of limit p0 dir blks w] r
  obtain p' where "process_stream limit dir blks (p0, w) = Inr (p', w')"
    "bufferSize p' = bufferSize p0" "freeBuffers p' = butlast (freeBuffers p0)"
    by auto
  with ne show "\<exists>p' w'. process_stream limit dir blks (p0, w) = Inr (p', w')
         \<and> bufferSize p' = bufferSize p0
         \<and> freeBuffers p' = butlast (freeBuffers p0)
         \<and> Suc (length (freeBuffers p')) = length (freeBuffers p0)"
    by auto
qed

theorem empty_buffer_is_dropped_witness:
  "flushCurrentBuffer (\<lparr>outputDir = ''/tmp/chunked_0'', currentBuffer = Some (ChunkBuffer_new 10)\<rparr>,
        BufferPool_new 0 10, test_world)
     = Inr (\<lparr>outputDir = ''/tmp/chunked_0'', currentBuffer = Some (ChunkBuffer_new 10)\<rparr>,
        BufferPool_new 0 10, test_world)
   \<and> Chunker_destroy (\<lparr>outputDir = ''/tmp/chunked_0'', currentBuffer = Some (ChunkBuffer_new 10)\<rparr>,
        BufferPool_new 0 10, test_world)
     = Inr (BufferPool_new 0 10, test_world)
   \<and> (\<exists>p' w'. process_stream 10 ''/tmp/chunked_0'' [''abcdefg'', ''hij''] (BufferPool_new 3 10, test_world)
                  = Inr (p', w')
         \<and> length (freeBuffers p') = 2)"
proof -
  have h1: "pool_ready 10 (BufferPool_new 3 10)"
    by (simp add: pool_ready_def BufferPool_new_def ChunkBuffer_new_def)
  have h2: "hash_ok test_world" by (simp add: hash_ok_def)
  have "length (concat [''abcdefg'', ''hij'']) = 10" by simp
  then have h3: "(10::nat) dvd length (concat [''abcdefg'', ''hij''])" by (simp only: dvd_refl)
  have h4: "used (ChunkBuffer_new 10) = 0" by (simp add: ChunkBuffer_new_def)
  have l: "length (freeBuffers (BufferPool_new 3 10)) = 3" by (simp add: BufferPool_new_def)
  note t = empty_buffer_is_dropped [of
      "\<lparr>outputDir = ''/tmp/chunked_0'', currentBuffer = Some (ChunkBuffer_new 10)\<rparr>"
      "ChunkBuffer_new 10" "BufferPool_new 0 10" test_world 10 "BufferPool_new 3 10"
      "[''abcdefg'', ''hij'']" "''/tmp/chunked_0''"]
  from t h1 h2 h3 h4 l show ?thesis by auto
qed

end
